theory Spec2Isabelle
  imports
    Main
    "HOL-Library.Char_ord"
    "HOL-Library.List_Lexorder"
    "HOL-Library.Multiset"
begin

section \<open>The veil: an authorization-filtering relay between two UNIX sockets\<close>

text \<open>
  The development embeds the method-keyed revision of \<^verbatim>\<open>src/veil.go\<close>: the rule
  compiler \<^verbatim>\<open>determineAccessRules\<close> and the request handler returned by
  \<^verbatim>\<open>obtainRequestHandler\<close>.

  Go strings are byte strings compared byte by byte; \<^typ>\<open>string\<close> with the order of
  \<^verbatim>\<open>HOL-Library.Char_ord\<close> and \<^verbatim>\<open>HOL-Library.List_Lexorder\<close> is the same
  order (a proper prefix is smaller, otherwise the first differing byte decides).
\<close>

subsection \<open>Constants of the program\<close>

definition accessRuleStringDelimiter :: char where
  "accessRuleStringDelimiter = CHR ''~''"

definition unauthorizedMsgString :: string where
  "unauthorizedMsgString = ''{\"type\":\"error\",\"status-code\":401,\"status\":\"Unauthorized\",\"result\":{\"message\":\"access dEEEEEenied\",\"kind\":\"login-required\"}}''"

definition unknownMsgString :: string where
  "unknownMsgString = ''{\"type\":\"error\",\"status-code\":404,\"status\":\"Not Found\",\"result\":{\"message\":\"not found\"}}''"

definition badRequestString :: string where
  "badRequestString = ''{\"type\":\"error\",\"status-code\":400,\"status\":\"Invalid Request\",\"result\":{\"message\":\"bad request\"}}''"

definition requestTimeoutString :: string where
  "requestTimeoutString = ''{\"type\":\"error\",\"status-code\":408,\"status\":\"Request Timeout\",\"result\":{\"message\":\"request timed out\"}}''"

definition internalErrorString :: string where
  "internalErrorString = ''{\"type\":\"error\",\"status-code\":500,\"status\":\"Internal Server Error\",\"result\":{\"message\":\"internal server error\"}}''"

subsection \<open>Run-time failures and the Go primitives the program relies on\<close>

text \<open>The only run-time panic the modelled code can raise is a slice index out of range.\<close>

datatype error = IndexOutOfRange

text \<open>\<^verbatim>\<open>xs[i]\<close> on a slice: panics outside \<open>0 .. len(xs) - 1\<close>.\<close>

definition index :: "'a list \<Rightarrow> nat \<Rightarrow> error + 'a" where
  "index xs i = (if i < length xs then Inr (xs ! i) else Inl IndexOutOfRange)"

text \<open>
  \<^verbatim>\<open>m[k]\<close> on a \<^verbatim>\<open>map[string][]string\<close>: a missing key reads as the zero value,
  the nil slice, which \<^verbatim>\<open>append\<close> and \<^verbatim>\<open>len\<close> treat as the empty slice.
\<close>

type_synonym RuleTable = "string \<rightharpoonup> string list"

definition mapIndex :: "RuleTable \<Rightarrow> string \<Rightarrow> string list" where
  "mapIndex m k = (case m k of None \<Rightarrow> [] | Some v \<Rightarrow> v)"

text \<open>
  \<^verbatim>\<open>strings.Split(s, sep)\<close> for a separator of one byte: the fields between the
  occurrences of the separator, so one field more than there are separators; the empty
  string gives one empty field.
\<close>

fun strings_Split :: "string \<Rightarrow> char \<Rightarrow> string list" where
  "strings_Split [] sep = [[]]"
| "strings_Split (c # cs) sep =
     (if c = sep then [] # strings_Split cs sep
      else (case strings_Split cs sep of
              [] \<Rightarrow> [[c]]
            | w # ws \<Rightarrow> (c # w) # ws))"

text \<open>
  \<^verbatim>\<open>sort.Search(n, f)\<close>: the loop
  \<^verbatim>\<open>i, j := 0, n; for i < j { h := int(uint(i+j) >> 1); if !f(h) { i = h + 1 } else { j = h } }; return i\<close>.
\<close>

function search_loop :: "(nat \<Rightarrow> bool) \<Rightarrow> nat \<Rightarrow> nat \<Rightarrow> nat" where
  "search_loop f i j =
     (if i < j then
        (let h = (i + j) div 2 in
         if \<not> f h then search_loop f (h + 1) j else search_loop f i h)
      else i)"
  by pat_completeness auto
termination
  by (relation "measure (\<lambda>(f, i, j). j - i)") auto

definition sort_Search :: "nat \<Rightarrow> (nat \<Rightarrow> bool) \<Rightarrow> nat" where
  "sort_Search n f = search_loop f 0 n"

text \<open>\<^verbatim>\<open>sort.SearchStrings(a, x) = sort.Search(len(a), func(i) { return a[i] >= x })\<close>.\<close>

definition sort_SearchStrings :: "string list \<Rightarrow> string \<Rightarrow> nat" where
  "sort_SearchStrings a x = sort_Search (length a) (\<lambda>i. a ! i \<ge> x)"

text \<open>
  \<^verbatim>\<open>sort.Strings\<close> sorts a slice in increasing order. Equal strings are identical, so
  the result of any correct sorting algorithm is the one sorted permutation, which
  \<^const>\<open>sort\<close> computes.
\<close>

definition sort_Strings :: "string list \<Rightarrow> string list" where
  "sort_Strings xs = sort xs"

subsection \<open>The rule compiler\<close>

text \<open>
  One iteration of the first loop of \<^verbatim>\<open>determineAccessRules\<close>: split the rule, skip
  it unless there are exactly two fields, create the method's entry when it is missing and
  append the path to it.
\<close>

definition addRule :: "RuleTable \<Rightarrow> string \<Rightarrow> error + RuleTable" where
  "addRule accessRulesMap rule =
     (let splitRule = strings_Split rule accessRuleStringDelimiter in
      if length splitRule \<noteq> 2 then Inr accessRulesMap
      else
        (case index splitRule 0 of
           Inl e \<Rightarrow> Inl e
         | Inr ruleHTTPMethod \<Rightarrow>
             (case index splitRule 1 of
                Inl e \<Rightarrow> Inl e
              | Inr ruleResourcePath \<Rightarrow>
                  (let created =
                         (if accessRulesMap ruleHTTPMethod = None
                          then accessRulesMap(ruleHTTPMethod \<mapsto> [])
                          else accessRulesMap);
                       accessRulesForMethod = mapIndex created ruleHTTPMethod
                   in Inr (created(ruleHTTPMethod \<mapsto>
                             accessRulesForMethod @ [ruleResourcePath]))))))"

text \<open>The first loop, over the rule lines in order.\<close>

fun accumulateRules :: "RuleTable \<Rightarrow> string list \<Rightarrow> error + RuleTable" where
  "accumulateRules accessRulesMap [] = Inr accessRulesMap"
| "accumulateRules accessRulesMap (rule # rules) =
     (case addRule accessRulesMap rule of
        Inl e \<Rightarrow> Inl e
      | Inr accessRulesMap' \<Rightarrow> accumulateRules accessRulesMap' rules)"

text \<open>
  The second loop visits every key once and replaces its list by the sorted list; the
  keys are independent, so the order of the visit does not matter.
\<close>

definition sortRules :: "RuleTable \<Rightarrow> RuleTable" where
  "sortRules accessRulesMap = (\<lambda>accessRulesMethod. map_option sort_Strings (accessRulesMap accessRulesMethod))"

definition determineAccessRules :: "string list \<Rightarrow> error + RuleTable" where
  "determineAccessRules accessRulesList =
     (case accumulateRules Map.empty accessRulesList of
        Inl e \<Rightarrow> Inl e
      | Inr accessRulesMap \<Rightarrow> Inr (sortRules accessRulesMap))"

subsection \<open>The request handler\<close>

text \<open>
  What the handler reads of the inbound request: \<^verbatim>\<open>r.Method\<close>, \<^verbatim>\<open>r.URL.Path\<close>
  and the body stream \<^verbatim>\<open>r.Body\<close>.
\<close>

record 'b request =
  Method :: string
  Path :: string
  Body :: 'b

text \<open>
  The handler's observable actions, in order: a body written to the caller, the call of
  \<^verbatim>\<open>http.NewRequest\<close> with its three arguments, the relay call \<^verbatim>\<open>Do\<close> of the
  client of the target socket, the copy of the backend's response body to the caller, and
  a panic.
\<close>

datatype ('b, 'q, 'r) event =
    WriteString string
  | NewRequest string string 'b
  | ClientDo 'q
  | Copy 'r
  | Panic error

text \<open>
  The decision of the handler (the lookup of \<^verbatim>\<open>r.Method\<close> in the table, the binary
  search and the comparison at the index found): \<open>Inr True\<close> is allow, \<open>Inr False\<close> is
  deny. The comparison \<^verbatim>\<open>accessRulesForMethodType[requestAllowanceRuleIndex]\<close> is only
  evaluated when the index is not the length (\<^verbatim>\<open>||\<close> short-circuits).
\<close>

definition authorize :: "RuleTable \<Rightarrow> string \<Rightarrow> string \<Rightarrow> error + bool" where
  "authorize accessRulesMap method path =
     (case accessRulesMap method of
        None \<Rightarrow> Inr False
      | Some accessRulesForMethodType \<Rightarrow>
          (let requestAllowanceRuleIndex = sort_SearchStrings accessRulesForMethodType path in
           if requestAllowanceRuleIndex = length accessRulesForMethodType then Inr False
           else
             (case index accessRulesForMethodType requestAllowanceRuleIndex of
                Inl e \<Rightarrow> Inl e
              | Inr found \<Rightarrow> if found \<noteq> path then Inr False else Inr True)))"

definition supportedMethods :: "string set" where
  "supportedMethods = {''GET'', ''POST'', ''DELETE'', ''PATCH'', ''PUT''}"

text \<open>
  The closure returned by \<^verbatim>\<open>obtainRequestHandler\<close>. \<^verbatim>\<open>http.NewRequest\<close> and the
  client's \<^verbatim>\<open>Do\<close> belong to the standard library and to the target socket; they are
  parameters, each returning an error (\<open>Inl\<close>) or its result. The five-second deadline
  is part of what \<open>clientDo\<close> answers.
\<close>

definition obtainRequestHandler ::
  "(string \<Rightarrow> string \<Rightarrow> 'b \<Rightarrow> 'e + 'q) \<Rightarrow> ('q \<Rightarrow> 'e + 'r) \<Rightarrow> RuleTable \<Rightarrow>
   'b request \<Rightarrow> ('b, 'q, 'r) event list" where
  "obtainRequestHandler newRequest clientDo accessRulesMap r =
     (let requestPath = ''http://unix'' @ Path r in
      if Method r \<in> supportedMethods then
        (case authorize accessRulesMap (Method r) (Path r) of
           Inl e \<Rightarrow> [Panic e]
         | Inr allowed \<Rightarrow>
             if \<not> allowed then [WriteString unauthorizedMsgString]
             else
               NewRequest (Method r) requestPath (Body r) #
               (case newRequest (Method r) requestPath (Body r) of
                  Inl errReqCreate \<Rightarrow> [WriteString internalErrorString]
                | Inr httpRequest \<Rightarrow>
                    ClientDo httpRequest #
                    (case clientDo httpRequest of
                       Inl errReqPeform \<Rightarrow> [WriteString requestTimeoutString]
                     | Inr response \<Rightarrow> [Copy response])))
      else [WriteString badRequestString])"



subsection \<open>Notions used to state the properties\<close>

text \<open>
  The two fields of a rule line that the compiler accepts: a line is accepted when
  \<^const>\<open>strings_Split\<close> gives exactly two fields, and is skipped otherwise.
\<close>

definition ruleFields :: "string \<Rightarrow> (string \<times> string) option" where
  "ruleFields rule =
     (case strings_Split rule accessRuleStringDelimiter of
        [ruleHTTPMethod, ruleResourcePath] \<Rightarrow> Some (ruleHTTPMethod, ruleResourcePath)
      | _ \<Rightarrow> None)"

text \<open>The paths of the accepted lines of one method, in the order of the lines.\<close>

definition rulePaths :: "string \<Rightarrow> string list \<Rightarrow> string list" where
  "rulePaths method rules =
     concat (map (\<lambda>rule. case ruleFields rule of
                            None \<Rightarrow> []
                          | Some (m, p) \<Rightarrow> if m = method then [p] else []) rules)"

text \<open>A (method, path) pair is present in a table when the path is in the method's list.\<close>

definition pairPresent :: "RuleTable \<Rightarrow> string \<Rightarrow> string \<Rightarrow> bool" where
  "pairPresent accessRulesMap method path =
     (case accessRulesMap method of None \<Rightarrow> False | Some paths \<Rightarrow> path \<in> set paths)"

text \<open>
  Sample standard-library answers for the concrete runs below: a construction and a relay
  call that succeed, and ones that fail.
\<close>

definition sampleNewRequest ::
  "string \<Rightarrow> string \<Rightarrow> string \<Rightarrow> unit + (string \<times> string \<times> string)" where
  "sampleNewRequest method url body = Inr (method, url, body)"

definition sampleClientDo :: "string \<times> string \<times> string \<Rightarrow> unit + string" where
  "sampleClientDo httpRequest = Inr ''response''"

definition failingNewRequest ::
  "string \<Rightarrow> string \<Rightarrow> string \<Rightarrow> unit + (string \<times> string \<times> string)" where
  "failingNewRequest method url body = Inl ()"

definition failingClientDo :: "string \<times> string \<times> string \<Rightarrow> unit + string" where
  "failingClientDo httpRequest = Inl ()"





section \<open>The rule compiler: what a compiled table contains\<close>

lemma length_two_iff: "length xs = 2 \<longleftrightarrow> (\<exists>a b. xs = [a, b])"
  by (cases xs; cases "tl xs"; cases "tl (tl xs)") auto

lemma ruleFields_None: "ruleFields rule = None \<longleftrightarrow> length (strings_Split rule accessRuleStringDelimiter) \<noteq> 2"
  unfolding ruleFields_def length_two_iff
  by (auto split: list.splits)

lemma addRule_eq:
  "addRule m rule =
     Inr (case ruleFields rule of
            None \<Rightarrow> m
          | Some (a, b) \<Rightarrow> m(a \<mapsto> mapIndex m a @ [b]))"
proof (cases "ruleFields rule")
  case None
  then have "length (strings_Split rule accessRuleStringDelimiter) \<noteq> 2"
    by (simp add: ruleFields_None)
  with None show ?thesis
    by (simp add: addRule_def)
next
  case (Some ab)
  obtain a b where ab: "ab = (a, b)" by (cases ab)
  from Some ab have sp: "strings_Split rule accessRuleStringDelimiter = [a, b]"
    by (auto simp: ruleFields_def split: list.splits)
  show ?thesis
    by (simp add: addRule_def sp Some ab index_def mapIndex_def Let_def)
qed

lemma rulePaths_Nil: "rulePaths k [] = []"
  by (simp add: rulePaths_def)

lemma rulePaths_Cons:
  "rulePaths k (rule # rules) =
     (case ruleFields rule of None \<Rightarrow> [] | Some (m, p) \<Rightarrow> if m = k then [p] else []) @ rulePaths k rules"
  by (simp add: rulePaths_def)


lemma set_rulePaths: "p \<in> set (rulePaths k rules) \<longleftrightarrow> (\<exists>rule \<in> set rules. ruleFields rule = Some (k, p))"
  by (induction rules) (auto simp: rulePaths_Nil rulePaths_Cons split: option.splits if_splits)

lemma accumulateRules_eq:
  "accumulateRules m rules =
     Inr (\<lambda>k. if rulePaths k rules = [] then m k else Some (mapIndex m k @ rulePaths k rules))"
proof (induction rules arbitrary: m)
  case Nil
  show ?case by (simp add: rulePaths_Nil)
next
  case (Cons rule rules)
  show ?case
  proof (cases "ruleFields rule")
    case None
    then show ?thesis
      by (simp add: addRule_eq Cons.IH rulePaths_Cons None cong: if_cong)
  next
    case (Some ab)
    obtain a b where ab: "ab = (a, b)" by (cases ab)
    show ?thesis
      by (simp add: addRule_eq Cons.IH rulePaths_Cons Some ab mapIndex_def fun_eq_iff cong: if_cong)
  qed
qed

lemma determineAccessRules_eq:
  "determineAccessRules rules =
     Inr (\<lambda>k. if rulePaths k rules = [] then None else Some (sort (rulePaths k rules)))"
  by (simp add: determineAccessRules_def accumulateRules_eq sortRules_def sort_Strings_def mapIndex_def fun_eq_iff)

section \<open>The binary search and the decision\<close>

lemma search_loop_bounds: "i \<le> j \<Longrightarrow> i \<le> search_loop f i j \<and> search_loop f i j \<le> j"
proof (induction f i j rule: search_loop.induct)
  case (1 f i j)
  show ?case
  proof (cases "i < j")
    case False
    with "1.prems" show ?thesis by (simp add: search_loop.simps [of f i j])
  next
    case True
    let ?h = "(i + j) div 2"
    from True have h: "i \<le> ?h" "?h < j" by auto
    show ?thesis
    proof (cases "f ?h")
      case fh: True
      from "1.IH"(2) [OF True refl] fh h
      have "i \<le> search_loop f i ?h \<and> search_loop f i ?h \<le> ?h" by simp
      with True fh h show ?thesis
        by (simp add: search_loop.simps [of f i j] Let_def)
    next
      case fh: False
      from "1.IH"(1) [OF True refl] fh h
      have "?h + 1 \<le> search_loop f (?h + 1) j \<and> search_loop f (?h + 1) j \<le> j" by simp
      with True fh h show ?thesis
        by (simp add: search_loop.simps [of f i j] Let_def)
    qed
  qed
qed

lemma search_loop_partition:
  assumes "i \<le> j"
    and "\<forall>k<i. \<not> f k"
    and "\<forall>k. j \<le> k \<and> k < n \<longrightarrow> f k"
    and "\<forall>a b. a \<le> b \<and> b < n \<and> f a \<longrightarrow> f b"
    and "j \<le> n"
  shows "(\<forall>k<search_loop f i j. \<not> f k) \<and> (\<forall>k. search_loop f i j \<le> k \<and> k < n \<longrightarrow> f k)"
  using assms
proof (induction f i j rule: search_loop.induct)
  case (1 f i j)
  show ?case
  proof (cases "i < j")
    case False
    with "1.prems"(1) have ij: "i = j" by simp
    have "search_loop f j j = j" by (simp add: search_loop.simps [of f j j])
    with "1.prems"(2,3) show ?thesis unfolding ij by (simp only:)
  next
    case True
    let ?h = "(i + j) div 2"
    from True have h: "i \<le> ?h" "?h < j" by auto
    show ?thesis
    proof (cases "f ?h")
      case fh: True
      have up: "\<forall>k. ?h \<le> k \<and> k < n \<longrightarrow> f k"
        using fh "1.prems"(4) by blast
      have "(\<forall>k<search_loop f i ?h. \<not> f k) \<and> (\<forall>k. search_loop f i ?h \<le> k \<and> k < n \<longrightarrow> f k)"
      proof (rule "1.IH"(2) [OF True refl])
        show "\<not> \<not> f ?h" using fh by simp
        show "i \<le> ?h" by (rule h(1))
        show "\<forall>k<i. \<not> f k" by (rule "1.prems"(2))
        show "\<forall>k. ?h \<le> k \<and> k < n \<longrightarrow> f k" by (rule up)
        show "\<forall>a b. a \<le> b \<and> b < n \<and> f a \<longrightarrow> f b" by (rule "1.prems"(4))
        show "?h \<le> n" using h(2) "1.prems"(5) by linarith
      qed
      moreover have "search_loop f i j = search_loop f i ?h"
        using True fh by (simp add: search_loop.simps [of f i j] Let_def)
      ultimately show ?thesis by (simp only:)
    next
      case fh: False
      have low: "\<forall>k<?h + 1. \<not> f k"
      proof (intro allI impI)
        fix k assume "k < ?h + 1"
        then have "k \<le> ?h" by simp
        moreover have "?h < n" using h "1.prems"(5) by simp
        ultimately show "\<not> f k" using fh "1.prems"(4) by blast
      qed
      have "(\<forall>k<search_loop f (?h + 1) j. \<not> f k) \<and> (\<forall>k. search_loop f (?h + 1) j \<le> k \<and> k < n \<longrightarrow> f k)"
      proof (rule "1.IH"(1) [OF True refl])
        show "\<not> f ?h" by (rule fh)
        show "?h + 1 \<le> j" using h(2) by linarith
        show "\<forall>k<?h + 1. \<not> f k" by (rule low)
        show "\<forall>k. j \<le> k \<and> k < n \<longrightarrow> f k" by (rule "1.prems"(3))
        show "\<forall>a b. a \<le> b \<and> b < n \<and> f a \<longrightarrow> f b" by (rule "1.prems"(4))
        show "j \<le> n" by (rule "1.prems"(5))
      qed
      moreover have "search_loop f i j = search_loop f (?h + 1) j"
        using True fh by (simp add: search_loop.simps [of f i j] Let_def)
      ultimately show ?thesis by (simp only:)
    qed
  qed
qed

lemma sort_SearchStrings_le: "sort_SearchStrings a x \<le> length a"
  using search_loop_bounds [of 0 "length a"]
  by (simp add: sort_SearchStrings_def sort_Search_def)

lemma sort_SearchStrings_sorted:
  assumes "sorted a"
  shows "(\<forall>k<sort_SearchStrings a x. a ! k < x) \<and>
         (\<forall>k. sort_SearchStrings a x \<le> k \<and> k < length a \<longrightarrow> x \<le> a ! k)"
proof -
  let ?f = "\<lambda>i. x \<le> a ! i"
  have mono: "\<forall>i j. i \<le> j \<and> j < length a \<and> ?f i \<longrightarrow> ?f j"
  proof (intro allI impI)
    fix i j
    assume h: "i \<le> j \<and> j < length a \<and> x \<le> a ! i"
    then have "a ! i \<le> a ! j"
      using assms by (simp add: sorted_iff_nth_mono)
    with h show "x \<le> a ! j" by (meson order_trans)
  qed
  have "(\<forall>k<search_loop ?f 0 (length a). \<not> ?f k) \<and>
        (\<forall>k. search_loop ?f 0 (length a) \<le> k \<and> k < length a \<longrightarrow> ?f k)"
  proof (rule search_loop_partition)
    show "0 \<le> length a" by simp
    show "\<forall>k<0. \<not> x \<le> a ! k" by simp
    show "\<forall>k. length a \<le> k \<and> k < length a \<longrightarrow> x \<le> a ! k" by auto
    show "\<forall>i j. i \<le> j \<and> j < length a \<and> x \<le> a ! i \<longrightarrow> x \<le> a ! j" by (rule mono)
    show "length a \<le> length a" by simp
  qed
  then show ?thesis
    unfolding sort_SearchStrings_def sort_Search_def by (simp only: not_le)
qed

lemma sort_SearchStrings_found:
  assumes "sorted a"
  shows "(sort_SearchStrings a x < length a \<and> a ! sort_SearchStrings a x = x) \<longleftrightarrow> x \<in> set a"
proof
  assume "sort_SearchStrings a x < length a \<and> a ! sort_SearchStrings a x = x"
  then show "x \<in> set a" by (metis nth_mem)
next
  let ?i = "sort_SearchStrings a x"
  assume "x \<in> set a"
  then obtain k where k: "k < length a" "a ! k = x" by (auto simp: in_set_conv_nth)
  from sort_SearchStrings_sorted [OF assms, of x]
  have below: "\<forall>j<?i. a ! j < x" and above: "\<forall>j. ?i \<le> j \<and> j < length a \<longrightarrow> x \<le> a ! j"
    by blast+
  have ik: "?i \<le> k"
  proof (rule ccontr)
    assume "\<not> ?i \<le> k"
    then have "k < ?i" by simp
    with below have "a ! k < x" by (simp only:)
    with k(2) show False by simp
  qed
  with k(1) have lt: "?i < length a" by simp
  from ik k(1) assms have "a ! ?i \<le> a ! k" by (simp add: sorted_iff_nth_mono)
  then have "a ! ?i \<le> x" by (simp only: k(2))
  moreover from above lt have "x \<le> a ! ?i" by (simp only: order_refl simp_thms)
  ultimately show "?i < length a \<and> a ! ?i = x" using lt by simp
qed

lemma authorize_eq:
  "authorize t m p =
     Inr (case t m of
            None \<Rightarrow> False
          | Some rs \<Rightarrow> sort_SearchStrings rs p < length rs \<and> rs ! sort_SearchStrings rs p = p)"
proof (cases "t m")
  case None
  then show ?thesis by (simp add: authorize_def)
next
  case (Some rs)
  from sort_SearchStrings_le [of rs p] Some show ?thesis
    by (auto simp: authorize_def index_def Let_def)
qed

lemma authorize_sorted:
  "t m = Some rs \<Longrightarrow> sorted rs \<Longrightarrow> authorize t m p = Inr (p \<in> set rs)"
  by (simp add: authorize_eq sort_SearchStrings_found)

lemma authorize_compiled:
  assumes "determineAccessRules rules = Inr t"
  shows "authorize t m p = Inr (\<exists>rule \<in> set rules. ruleFields rule = Some (m, p))"
proof -
  from assms have t: "t = (\<lambda>k. if rulePaths k rules = [] then None else Some (sort (rulePaths k rules)))"
    by (simp add: determineAccessRules_eq)
  show ?thesis
  proof (cases "rulePaths m rules = []")
    case True
    then have "\<not> (\<exists>rule \<in> set rules. ruleFields rule = Some (m, p))"
      using set_rulePaths [of p m rules] by simp
    with True show ?thesis by (simp add: authorize_eq t)
  next
    case False
    then have "t m = Some (sort (rulePaths m rules))" by (simp add: t)
    then have "authorize t m p = Inr (p \<in> set (sort (rulePaths m rules)))"
      by (rule authorize_sorted) simp
    then show ?thesis
      by (simp add: set_rulePaths)
  qed
qed

lemma pairPresent_compiled:
  assumes "determineAccessRules rules = Inr t"
  shows "pairPresent t m p \<longleftrightarrow> (\<exists>rule \<in> set rules. ruleFields rule = Some (m, p))"
proof -
  from assms have t: "t = (\<lambda>k. if rulePaths k rules = [] then None else Some (sort (rulePaths k rules)))"
    by (simp add: determineAccessRules_eq)
  show ?thesis
    using set_rulePaths [of p m rules]
    by (cases "rulePaths m rules = []") (simp_all add: pairPresent_def t)
qed

lemma authorize_present:
  assumes "determineAccessRules rules = Inr t"
  shows "authorize t m p = Inr (pairPresent t m p)"
  by (simp add: authorize_compiled [OF assms] pairPresent_compiled [OF assms])

lemma handler_supported:
  assumes "Method r \<in> supportedMethods" and "authorize t (Method r) (Path r) = Inr allowed"
  shows "obtainRequestHandler nr cd t r =
           (if \<not> allowed then [WriteString unauthorizedMsgString]
            else NewRequest (Method r) (''http://unix'' @ Path r) (Body r) #
                 (case nr (Method r) (''http://unix'' @ Path r) (Body r) of
                    Inl e \<Rightarrow> [WriteString internalErrorString]
                  | Inr q \<Rightarrow> ClientDo q #
                      (case cd q of
                         Inl e \<Rightarrow> [WriteString requestTimeoutString]
                       | Inr resp \<Rightarrow> [Copy resp])))"
  using assms by (simp add: obtainRequestHandler_def Let_def)

lemma handler_unsupported:
  "Method r \<notin> supportedMethods \<Longrightarrow> obtainRequestHandler nr cd t r = [WriteString badRequestString]"
  by (simp add: obtainRequestHandler_def Let_def)

lemma compile_status: "determineAccessRules [''GET~/status''] = Inr [''GET'' \<mapsto> [''/status'']]"
  by (simp add: determineAccessRules_eq rulePaths_def ruleFields_def accessRuleStringDelimiter_def fun_eq_iff)

lemma strings_differ: "badRequestString \<noteq> unauthorizedMsgString"
  by (simp add: badRequestString_def unauthorizedMsgString_def)

lemma options_unsupported: "''OPTIONS'' \<notin> supportedMethods"
  by (simp add: supportedMethods_def)

section \<open>Concrete runs and further facts about the handler\<close>

lemma handler_no_panic: "Panic e \<notin> set (obtainRequestHandler nr cd t r)"
  by (auto simp: obtainRequestHandler_def authorize_eq Let_def split: sum.splits)

lemma compile_total: "\<exists>t. determineAccessRules rules = Inr t"
  by (simp add: determineAccessRules_eq)

lemma compile_duplicate:
  "determineAccessRules [''GET~/a'', ''GET~/a''] = Inr [''GET'' \<mapsto> [''/a'', ''/a'']]"
  by (simp add: determineAccessRules_eq rulePaths_def ruleFields_def accessRuleStringDelimiter_def fun_eq_iff)


lemma compile_empty: "determineAccessRules [] = Inr Map.empty"
  by (simp add: determineAccessRules_eq rulePaths_def)





lemma handler_cong_authorize:
  assumes "authorize t (Method r) (Path r) = authorize t' (Method r) (Path r)"
  shows "obtainRequestHandler nr cd t r = obtainRequestHandler nr cd t' r"
  unfolding obtainRequestHandler_def Let_def assms by (rule refl)

lemma compile_status_post:
  "determineAccessRules ([''GET~/status''] @ [''POST~/status'']) =
     Inr [''GET'' \<mapsto> [''/status''], ''POST'' \<mapsto> [''/status'']]"
  by (simp add: determineAccessRules_eq rulePaths_def ruleFields_def accessRuleStringDelimiter_def fun_eq_iff)




section \<open>Properties of the relay\<close>

subsection \<open>Denied requests\<close>

text \<open>
  C1 (as stated): every request whose (method, path) pair is not in the compiled table gets
  the unauthorized body. This fails for a request whose method the handler does not
  support: with the rule \<^verbatim>\<open>GET~/status\<close>, the request \<^verbatim>\<open>OPTIONS /status\<close> has
  no pair in the table and gets the bad-request body.
\<close>

theorem C1_counterexample:
  "determineAccessRules [''GET~/status''] = Inr [''GET'' \<mapsto> [''/status'']] \<and>
   \<not> pairPresent [''GET'' \<mapsto> [''/status'']] ''OPTIONS'' ''/status'' \<and>
   obtainRequestHandler sampleNewRequest sampleClientDo [''GET'' \<mapsto> [''/status'']]
     \<lparr>Method = ''OPTIONS'', Path = ''/status'', Body = ''''\<rparr> = [WriteString badRequestString] \<and>
   obtainRequestHandler sampleNewRequest sampleClientDo [''GET'' \<mapsto> [''/status'']]
     \<lparr>Method = ''OPTIONS'', Path = ''/status'', Body = ''''\<rparr> \<noteq> [WriteString unauthorizedMsgString]"
  by (simp add: compile_status pairPresent_def handler_unsupported options_unsupported strings_differ)

text \<open>
  C1 (amended): for every compiled table and every request whose pair is not in the table,
  the relay call is never made; the handler writes exactly the unauthorized body when the
  method is one of the five supported ones, and exactly the bad-request body otherwise.
\<close>

theorem C1_denied_never_relayed:
  assumes "determineAccessRules rules = Inr t"
    and "\<not> pairPresent t (Method r) (Path r)"
  shows "(\<forall>q. ClientDo q \<notin> set (obtainRequestHandler nr cd t r)) \<and>
         (Method r \<in> supportedMethods \<longrightarrow>
            obtainRequestHandler nr cd t r = [WriteString unauthorizedMsgString]) \<and>
         (Method r \<notin> supportedMethods \<longrightarrow>
            obtainRequestHandler nr cd t r = [WriteString badRequestString])"
proof -
  from assms have deny: "authorize t (Method r) (Path r) = Inr False"
    by (simp add: authorize_present)
  show ?thesis
  proof (cases "Method r \<in> supportedMethods")
    case True
    from handler_supported [OF True deny, of nr cd] True show ?thesis by simp
  next
    case False
    then show ?thesis by (simp add: handler_unsupported)
  qed
qed

theorem C1_denied_never_relayed_witness:
  "determineAccessRules [''GET~/status''] = Inr [''GET'' \<mapsto> [''/status'']] \<and>
   \<not> pairPresent [''GET'' \<mapsto> [''/status'']] ''GET'' ''/other'' \<and>
   obtainRequestHandler sampleNewRequest sampleClientDo [''GET'' \<mapsto> [''/status'']]
     \<lparr>Method = ''GET'', Path = ''/other'', Body = ''''\<rparr> = [WriteString unauthorizedMsgString]"
proof -
  have h1: "determineAccessRules [''GET~/status''] = Inr [''GET'' \<mapsto> [''/status'']]"
    by (rule compile_status)
  have h2: "\<not> pairPresent [''GET'' \<mapsto> [''/status'']]
              (Method \<lparr>Method = ''GET'', Path = ''/other'', Body = ''''\<rparr>)
              (Path \<lparr>Method = ''GET'', Path = ''/other'', Body = ''''\<rparr>)"
    by (simp add: pairPresent_def)
  from C1_denied_never_relayed [OF h1 h2, of sampleNewRequest sampleClientDo] h1 h2
  show ?thesis by (simp add: supportedMethods_def)
qed

subsection \<open>The decision\<close>

text \<open>
  C2: for every rule table, method and path, the decision is deny when the method is not a
  key of the table; otherwise it is allow exactly when the index returned by the binary
  search is inside the list and the entry there equals the path (an insertion index that
  does not point at an exact match is deny), and on a sorted list that is exactly when the
  path is in the list. The decision never panics.
\<close>

theorem C2_authorize_binary_search:
  "(t m = None \<longrightarrow> authorize t m p = Inr False) \<and>
   (\<forall>rs. t m = Some rs \<longrightarrow>
      authorize t m p =
        Inr (sort_SearchStrings rs p < length rs \<and> rs ! sort_SearchStrings rs p = p) \<and>
      (sorted rs \<longrightarrow> authorize t m p = Inr (p \<in> set rs)))"
  by (simp add: authorize_eq sort_SearchStrings_found)

theorem C2_authorize_binary_search_witness:
  "authorize [''GET'' \<mapsto> [''/a'', ''/c'']] ''POST'' ''/a'' = Inr False \<and>
   authorize [''GET'' \<mapsto> [''/a'', ''/c'']] ''GET'' ''/c'' = Inr True \<and>
   sort_SearchStrings [''/a'', ''/c''] ''/b'' = 1 \<and>
   authorize [''GET'' \<mapsto> [''/a'', ''/c'']] ''GET'' ''/b'' = Inr False"
proof -
  have s: "sorted [''/a'', ''/c'']" by simp
  have i: "sort_SearchStrings [''/a'', ''/c''] ''/b'' = 1"
    by (simp add: sort_SearchStrings_def sort_Search_def search_loop.simps)
  from C2_authorize_binary_search [of "[''GET'' \<mapsto> [''/a'', ''/c'']]" "''POST''" "''/a''"]
  have a: "authorize [''GET'' \<mapsto> [''/a'', ''/c'']] ''POST'' ''/a'' = Inr False" by simp
  from C2_authorize_binary_search [of "[''GET'' \<mapsto> [''/a'', ''/c'']]" "''GET''" "''/c''"] s
  have b: "authorize [''GET'' \<mapsto> [''/a'', ''/c'']] ''GET'' ''/c'' = Inr True" by auto
  from C2_authorize_binary_search [of "[''GET'' \<mapsto> [''/a'', ''/c'']]" "''GET''" "''/b''"] s
  have c: "authorize [''GET'' \<mapsto> [''/a'', ''/c'']] ''GET'' ''/b'' = Inr False" by auto
  from a b c i show ?thesis by simp
qed

subsection \<open>What the compiler produces\<close>

text \<open>
  C3 (as stated): every method's list is strictly sorted and free of duplicates, and
  compiling \<^verbatim>\<open>GET~/a\<close> twice gives a list of size 1. The compiler sorts but does not
  remove duplicates: the two lines give the list \<^verbatim>\<open>["/a", "/a"]\<close> of size 2.
\<close>

theorem C3_counterexample:
  "determineAccessRules [''GET~/a'', ''GET~/a''] = Inr [''GET'' \<mapsto> [''/a'', ''/a'']] \<and>
   [''GET'' \<mapsto> [''/a'', ''/a'']] ''GET'' = Some [''/a'', ''/a''] \<and>
   length [''/a'', ''/a''] = 2 \<and>
   \<not> distinct [''/a'', ''/a''] \<and>
   \<not> sorted_wrt (<) [''/a'', ''/a'']"
  by (simp add: compile_duplicate)

text \<open>
  C3 (amended): for every sequence of rule lines and every method key of the compiled
  table, the method's list is sorted lexicographically (not strictly) and holds one entry
  for each accepted line of that method, duplicates included.
\<close>

theorem C3_sorted_keeps_duplicates:
  assumes "determineAccessRules rules = Inr t" and "t m = Some rs"
  shows "sorted rs \<and> mset rs = mset (rulePaths m rules) \<and> length rs = length (rulePaths m rules)"
proof -
  from assms(1) have t: "t = (\<lambda>k. if rulePaths k rules = [] then None else Some (sort (rulePaths k rules)))"
    by (simp add: determineAccessRules_eq)
  from assms(2) have "rs = sort (rulePaths m rules)"
    by (simp add: t split: if_splits)
  then show ?thesis by simp
qed

theorem C3_sorted_keeps_duplicates_witness:
  "determineAccessRules [''GET~/a'', ''GET~/a''] = Inr [''GET'' \<mapsto> [''/a'', ''/a'']] \<and>
   [''GET'' \<mapsto> [''/a'', ''/a'']] ''GET'' = Some [''/a'', ''/a''] \<and>
   sorted [''/a'', ''/a''] \<and>
   rulePaths ''GET'' [''GET~/a'', ''GET~/a''] = [''/a'', ''/a''] \<and>
   length [''/a'', ''/a''] = length (rulePaths ''GET'' [''GET~/a'', ''GET~/a''])"
proof -
  have h1: "determineAccessRules [''GET~/a'', ''GET~/a''] = Inr [''GET'' \<mapsto> [''/a'', ''/a'']]"
    by (rule compile_duplicate)
  have h2: "[''GET'' \<mapsto> [''/a'', ''/a'']] ''GET'' = Some [''/a'', ''/a'']" by simp
  have h3: "rulePaths ''GET'' [''GET~/a'', ''GET~/a''] = [''/a'', ''/a'']"
    by (simp add: rulePaths_def ruleFields_def accessRuleStringDelimiter_def)
  from C3_sorted_keeps_duplicates [OF h1 h2] h1 h2 h3 show ?thesis by simp
qed




subsection \<open>Unsupported methods\<close>

text \<open>
  C5: for every rule table, whatever it contains, and every request whose method is outside
  GET, POST, DELETE, PATCH, PUT (for example OPTIONS), the handler writes the bad-request
  body and does nothing else: the result does not depend on the table, and there is no
  relay call.
\<close>

theorem C5_unsupported_method_bad_request:
  "(Method r \<notin> {''GET'', ''POST'', ''DELETE'', ''PATCH'', ''PUT''} \<longrightarrow>
      obtainRequestHandler nr cd t r = [WriteString badRequestString]) \<and>
   (Method r = ''OPTIONS'' \<longrightarrow> obtainRequestHandler nr cd t r = [WriteString badRequestString])"
  by (simp add: obtainRequestHandler_def supportedMethods_def Let_def)

theorem C5_unsupported_method_bad_request_witness:
  "''OPTIONS'' \<notin> {''GET'', ''POST'', ''DELETE'', ''PATCH'', ''PUT''} \<and>
   obtainRequestHandler sampleNewRequest sampleClientDo [''OPTIONS'' \<mapsto> [''/status'']]
     \<lparr>Method = ''OPTIONS'', Path = ''/status'', Body = ''''\<rparr> = [WriteString badRequestString]"
  using C5_unsupported_method_bad_request
          [of "\<lparr>Method = ''OPTIONS'', Path = ''/status'', Body = ''''\<rparr>"
              sampleNewRequest sampleClientDo "[''OPTIONS'' \<mapsto> [''/status'']]"]
  by simp

subsection \<open>Allowed requests\<close>




text \<open>
  C7: for every allowed request (supported method, pair in the compiled table), a failure
  to construct the outbound request writes the internal-error body and nothing else, every
  error of the relay call writes the request-timeout body and nothing else, and the handler
  never panics.
\<close>

theorem C7_relay_failures_typed:
  assumes "determineAccessRules rules = Inr t"
    and "pairPresent t (Method r) (Path r)"
    and "Method r \<in> supportedMethods"
  shows "(\<forall>e. nr (Method r) (''http://unix'' @ Path r) (Body r) = Inl e \<longrightarrow>
            obtainRequestHandler nr cd t r =
              [NewRequest (Method r) (''http://unix'' @ Path r) (Body r),
               WriteString internalErrorString]) \<and>
         (\<forall>q e. nr (Method r) (''http://unix'' @ Path r) (Body r) = Inr q \<and> cd q = Inl e \<longrightarrow>
            obtainRequestHandler nr cd t r =
              [NewRequest (Method r) (''http://unix'' @ Path r) (Body r),
               ClientDo q,
               WriteString requestTimeoutString]) \<and>
         (\<forall>e. Panic e \<notin> set (obtainRequestHandler nr cd t r))"
proof -
  from assms have allow: "authorize t (Method r) (Path r) = Inr True"
    by (simp add: authorize_present)
  from handler_supported [OF assms(3) allow, of nr cd]
  have H: "obtainRequestHandler nr cd t r =
             NewRequest (Method r) (''http://unix'' @ Path r) (Body r) #
             (case nr (Method r) (''http://unix'' @ Path r) (Body r) of
                Inl e \<Rightarrow> [WriteString internalErrorString]
              | Inr q \<Rightarrow> ClientDo q #
                  (case cd q of
                     Inl e \<Rightarrow> [WriteString requestTimeoutString]
                   | Inr resp \<Rightarrow> [Copy resp]))"
    by simp
  have p1: "\<forall>e. nr (Method r) (''http://unix'' @ Path r) (Body r) = Inl e \<longrightarrow>
            obtainRequestHandler nr cd t r =
              [NewRequest (Method r) (''http://unix'' @ Path r) (Body r),
               WriteString internalErrorString]"
    unfolding H by auto
  have p2: "\<forall>q e. nr (Method r) (''http://unix'' @ Path r) (Body r) = Inr q \<and> cd q = Inl e \<longrightarrow>
            obtainRequestHandler nr cd t r =
              [NewRequest (Method r) (''http://unix'' @ Path r) (Body r),
               ClientDo q,
               WriteString requestTimeoutString]"
    unfolding H by auto
  have p3: "\<forall>e. Panic e \<notin> set (obtainRequestHandler nr cd t r)"
    by (simp add: handler_no_panic)
  from p1 p2 p3 show ?thesis by (intro conjI)
qed

theorem C7_relay_failures_typed_witness:
  "determineAccessRules [''GET~/status''] = Inr [''GET'' \<mapsto> [''/status'']] \<and>
   pairPresent [''GET'' \<mapsto> [''/status'']] ''GET'' ''/status'' \<and>
   ''GET'' \<in> supportedMethods \<and>
   obtainRequestHandler failingNewRequest sampleClientDo [''GET'' \<mapsto> [''/status'']]
     \<lparr>Method = ''GET'', Path = ''/status'', Body = ''payload''\<rparr> =
   [NewRequest ''GET'' ''http://unix/status'' ''payload'', WriteString internalErrorString] \<and>
   obtainRequestHandler sampleNewRequest failingClientDo [''GET'' \<mapsto> [''/status'']]
     \<lparr>Method = ''GET'', Path = ''/status'', Body = ''payload''\<rparr> =
   [NewRequest ''GET'' ''http://unix/status'' ''payload'',
    ClientDo (''GET'', ''http://unix/status'', ''payload''),
    WriteString requestTimeoutString]"
proof -
  have h1: "determineAccessRules [''GET~/status''] = Inr [''GET'' \<mapsto> [''/status'']]"
    by (rule compile_status)
  have h2: "pairPresent [''GET'' \<mapsto> [''/status'']]
              (Method \<lparr>Method = ''GET'', Path = ''/status'', Body = ''payload''\<rparr>)
              (Path \<lparr>Method = ''GET'', Path = ''/status'', Body = ''payload''\<rparr>)"
    by (simp add: pairPresent_def)
  have h3: "Method \<lparr>Method = ''GET'', Path = ''/status'', Body = ''payload''\<rparr> \<in> supportedMethods"
    by (simp add: supportedMethods_def)
  from C7_relay_failures_typed [OF h1 h2 h3, of failingNewRequest sampleClientDo]
       C7_relay_failures_typed [OF h1 h2 h3, of sampleNewRequest failingClientDo]
       h1 h2 h3
  show ?thesis
    by (simp add: sampleNewRequest_def failingNewRequest_def failingClientDo_def)
qed

subsection \<open>Compilation is total; the empty table\<close>

text \<open>
  C8: compilation returns a table for every sequence of lines, the empty sequence gives the
  empty table, and under the empty table every probe is denied and every request with a
  supported method gets the unauthorized body.
\<close>

theorem C8_compile_total_empty_denies:
  "(\<exists>t. determineAccessRules rules = Inr t) \<and>
   determineAccessRules [] = Inr Map.empty \<and>
   authorize Map.empty m p = Inr False \<and>
   (Method r \<in> supportedMethods \<longrightarrow>
      obtainRequestHandler nr cd Map.empty r = [WriteString unauthorizedMsgString])"
proof -
  have a: "authorize Map.empty m p = Inr False" for m p
    by (simp add: authorize_eq)
  have "obtainRequestHandler nr cd Map.empty r = [WriteString unauthorizedMsgString]"
    if "Method r \<in> supportedMethods"
    using handler_supported [OF that a, of nr cd] by simp
  moreover have "\<exists>t. determineAccessRules rules = Inr t"
    by (simp add: determineAccessRules_eq)
  ultimately show ?thesis using a
    by (simp add: compile_empty)
qed

theorem C8_compile_total_empty_denies_witness:
  "''PUT'' \<in> supportedMethods \<and>
   obtainRequestHandler sampleNewRequest sampleClientDo Map.empty
     \<lparr>Method = ''PUT'', Path = ''/anything'', Body = ''''\<rparr> = [WriteString unauthorizedMsgString]"
  using C8_compile_total_empty_denies
          [of "[]" "''PUT''" "''/anything''" "\<lparr>Method = ''PUT'', Path = ''/anything'', Body = ''''\<rparr>"
              sampleNewRequest sampleClientDo]
  by (simp add: supportedMethods_def)

subsection \<open>Order and growth of the rule file\<close>

text \<open>
  C9: for every sequence of rule lines and every permutation of it, both compile, and the
  two tables give the same decision for every (method, path) probe, hence the same handler
  behaviour for every request.
\<close>

theorem C9_line_order_irrelevant:
  assumes "mset rules = mset rules'"
  shows "\<exists>t t'. determineAccessRules rules = Inr t \<and>
                 determineAccessRules rules' = Inr t' \<and>
                 (\<forall>m p. authorize t m p = authorize t' m p) \<and>
                 (\<forall>r. obtainRequestHandler nr cd t r = obtainRequestHandler nr cd t' r)"
proof -
  from compile_total obtain t where t: "determineAccessRules rules = Inr t" ..
  from compile_total obtain t' where t': "determineAccessRules rules' = Inr t'" ..
  from assms have sets: "set rules = set rules'" by (rule mset_eq_setD)
  have same: "authorize t m p = authorize t' m p" for m p
    by (simp only: authorize_compiled [OF t] authorize_compiled [OF t'] sets)
  then have "obtainRequestHandler nr cd t r = obtainRequestHandler nr cd t' r" for r
    by (rule handler_cong_authorize)
  then have handlers: "\<forall>r. obtainRequestHandler nr cd t r = obtainRequestHandler nr cd t' r"
    by (rule allI)
  from same have decisions: "\<forall>m p. authorize t m p = authorize t' m p"
    by (intro allI)
  show ?thesis
  proof (intro exI conjI)
    show "determineAccessRules rules = Inr t" by (rule t)
    show "determineAccessRules rules' = Inr t'" by (rule t')
    show "\<forall>m p. authorize t m p = authorize t' m p" by (rule decisions)
    show "\<forall>r. obtainRequestHandler nr cd t r = obtainRequestHandler nr cd t' r" by (rule handlers)
  qed
qed

theorem C9_line_order_irrelevant_witness:
  "mset [''GET~/b'', ''POST~/a'', ''GET~/a''] = mset [''GET~/a'', ''GET~/b'', ''POST~/a''] \<and>
   (\<exists>t t'. determineAccessRules [''GET~/b'', ''POST~/a'', ''GET~/a''] = Inr t \<and>
            determineAccessRules [''GET~/a'', ''GET~/b'', ''POST~/a''] = Inr t' \<and>
            (\<forall>m p. authorize t m p = authorize t' m p) \<and>
            (\<forall>r. obtainRequestHandler sampleNewRequest sampleClientDo t r =
                 obtainRequestHandler sampleNewRequest sampleClientDo t' r))"
proof -
  have h: "mset [''GET~/b'', ''POST~/a'', ''GET~/a''] = mset [''GET~/a'', ''GET~/b'', ''POST~/a'']"
    by simp
  show ?thesis
  proof (rule conjI)
    show "mset [''GET~/b'', ''POST~/a'', ''GET~/a''] = mset [''GET~/a'', ''GET~/b'', ''POST~/a'']"
      by (rule h)
    show "\<exists>t t'. determineAccessRules [''GET~/b'', ''POST~/a'', ''GET~/a''] = Inr t \<and>
            determineAccessRules [''GET~/a'', ''GET~/b'', ''POST~/a''] = Inr t' \<and>
            (\<forall>m p. authorize t m p = authorize t' m p) \<and>
            (\<forall>r. obtainRequestHandler sampleNewRequest sampleClientDo t r =
                 obtainRequestHandler sampleNewRequest sampleClientDo t' r)"
      by (rule C9_line_order_irrelevant [OF h])
  qed
qed

text \<open>
  C10: for every sequence of rule lines \<open>L\<close> and every further line \<open>x\<close>, a probe allowed
  by the table compiled from \<open>L\<close> is allowed by the table compiled from \<open>L\<close> with \<open>x\<close>
  appended.
\<close>

theorem C10_appending_rule_monotone:
  assumes "determineAccessRules L = Inr t"
    and "determineAccessRules (L @ [x]) = Inr t'"
    and "authorize t m p = Inr True"
  shows "authorize t' m p = Inr True"
  using assms(3)
  by (auto simp: authorize_compiled [OF assms(1)] authorize_compiled [OF assms(2)])

theorem C10_appending_rule_monotone_witness:
  "determineAccessRules [''GET~/status''] = Inr [''GET'' \<mapsto> [''/status'']] \<and>
   determineAccessRules ([''GET~/status''] @ [''POST~/status'']) =
     Inr [''GET'' \<mapsto> [''/status''], ''POST'' \<mapsto> [''/status'']] \<and>
   authorize [''GET'' \<mapsto> [''/status'']] ''GET'' ''/status'' = Inr True \<and>
   authorize [''GET'' \<mapsto> [''/status''], ''POST'' \<mapsto> [''/status'']] ''GET'' ''/status'' = Inr True"
proof -
  have h1: "determineAccessRules [''GET~/status''] = Inr [''GET'' \<mapsto> [''/status'']]"
    by (rule compile_status)
  have h2: "determineAccessRules ([''GET~/status''] @ [''POST~/status'']) =
              Inr [''GET'' \<mapsto> [''/status''], ''POST'' \<mapsto> [''/status'']]"
    by (rule compile_status_post)
  have h3: "authorize [''GET'' \<mapsto> [''/status'']] ''GET'' ''/status'' = Inr True"
    by (simp add: authorize_sorted [of _ _ "[''/status'']"])
  from C10_appending_rule_monotone [OF h1 h2 h3] h1 h2 h3 show ?thesis by simp
qed

end
